theory Spec2Isabelle
  imports Main "HOL-Library.Multiset"
begin

section \<open>Cards, hands and the constants of \<open>js/evaluatePokerHand.js\<close>\<close>

text \<open>
  A card is the object \<open>{ rank, suit }\<close> of the source. The rank is an integer
  (1 for the Ace, 11 to 13 for Jack, Queen and King, but any integer can be passed in),
  the suit any string; a hand is the array of cards, in input order.
\<close>

record card =
  rank :: int
  suit :: string

type_synonym hand = "card list"

named_theorems poker_consts \<open>the constants of the source file\<close>

definition TOTAL_CARDS :: nat where
  [poker_consts]: "TOTAL_CARDS = 5"

definition MAX_RANK_DIFF :: int where
  [poker_consts]: "MAX_RANK_DIFF = 4"

definition ROYAL_TAIL_LENGTH :: nat where
  [poker_consts]: "ROYAL_TAIL_LENGTH = 4"

definition ACE_RANK :: int where
  [poker_consts]: "ACE_RANK = 1"

definition BROADWAY_START :: int where
  [poker_consts]: "BROADWAY_START = 10"

text \<open>\<^verbatim>\<open>[...Array(13).keys()].map(i => i + 1)\<close>\<close>

definition VALID_RANKS :: "int list" where
  [poker_consts]: "VALID_RANKS = map (\<lambda>i. int i + 1) [0..<13]"

definition VALID_SUITS :: "string list" where
  [poker_consts]: "VALID_SUITS = [''club'', ''spade'', ''diamond'', ''heart'']"

definition FOUR_OF_A_KIND_COUNT :: nat where
  [poker_consts]: "FOUR_OF_A_KIND_COUNT = 4"

definition THREE_OF_A_KIND_COUNT :: nat where
  [poker_consts]: "THREE_OF_A_KIND_COUNT = 3"

definition PAIR_COUNT :: nat where
  [poker_consts]: "PAIR_COUNT = 2"

definition TWO_PAIR_COUNT :: nat where
  [poker_consts]: "TWO_PAIR_COUNT = 2"


section \<open>Validation\<close>

text \<open>
  The three \<^verbatim>\<open>throw new Error(...)\<close> of \<open>validateHand\<close>, one constructor for each
  message: 'A valid poker hand must have exactly 5 cards.', 'Invalid rank detected.' and
  'Invalid suit detected.'.
\<close>

datatype error = WrongCardinality | InvalidRank | InvalidSuit

fun error_message :: "error \<Rightarrow> string" where
  "error_message WrongCardinality = ''A valid poker hand must have exactly 5 cards.''"
| "error_message InvalidRank = ''Invalid rank detected.''"
| "error_message InvalidSuit = ''Invalid suit detected.''"

text \<open>
  The \<^verbatim>\<open>for (let { rank, suit } of hand)\<close> loop of \<open>validateHand\<close>: cards in input
  order, the rank of a card before its suit, the first failure thrown.
\<close>

fun validateCards :: "hand \<Rightarrow> error + unit" where
  "validateCards [] = Inr ()"
| "validateCards (c # cs) =
     (if rank c \<notin> set VALID_RANKS then Inl InvalidRank
      else if suit c \<notin> set VALID_SUITS then Inl InvalidSuit
      else validateCards cs)"

text \<open>A hand is a list here, so \<^verbatim>\<open>!Array.isArray(hand)\<close> is false.\<close>

definition validateHand :: "hand \<Rightarrow> error + unit" where
  "validateHand hand =
     (if length hand \<noteq> TOTAL_CARDS then Inl WrongCardinality else validateCards hand)"


section \<open>Aggregation\<close>

text \<open>
  \<open>rankCounts\<close> and \<open>suitCounts\<close> are plain objects used as dictionaries. An object is
  modelled by the list of its own properties in creation order, each key once.
  \<open>get_or_zero\<close> is \<^verbatim>\<open>obj[k] || 0\<close> and \<open>assign\<close> is \<^verbatim>\<open>obj[k] = v\<close>: an existing
  property keeps its place, a new one is created last. The properties inherited from
  \<^verbatim>\<open>Object.prototype\<close> are left out: \<open>evaluatePokerHand\<close> counts validated hands only,
  whose keys are the ranks 1 to 13 and the four suit names.
\<close>

type_synonym 'k object = "('k \<times> nat) list"

fun get_or_zero :: "'k object \<Rightarrow> 'k \<Rightarrow> nat" where
  "get_or_zero [] k = 0"
| "get_or_zero ((k', n) # rest) k = (if k' = k then n else get_or_zero rest k)"

fun assign :: "'k \<Rightarrow> nat \<Rightarrow> 'k object \<Rightarrow> 'k object" where
  "assign k v [] = [(k, v)]"
| "assign k v ((k', n) # rest) =
     (if k' = k then (k', v) # rest else (k', n) # assign k v rest)"

record counts =
  rankCounts :: "int object"
  suitCounts :: "string object"

text \<open>One iteration of the loop of \<open>countRanksAndSuits\<close>.\<close>

definition count_card :: "card \<Rightarrow> counts \<Rightarrow> counts" where
  "count_card c acc =
     \<lparr>rankCounts = assign (rank c) (get_or_zero (rankCounts acc) (rank c) + 1) (rankCounts acc),
      suitCounts = assign (suit c) (get_or_zero (suitCounts acc) (suit c) + 1) (suitCounts acc)\<rparr>"

definition countRanksAndSuits :: "hand \<Rightarrow> counts" where
  "countRanksAndSuits hand = fold count_card hand \<lparr>rankCounts = [], suitCounts = []\<rparr>"

text \<open>
  \<^verbatim>\<open>Object.keys\<close> and \<^verbatim>\<open>Object.values\<close> enumerate the integer-like keys (array indices,
  from 0 to \<open>2^32 - 2\<close>) first, in ascending numeric order, and the other keys after
  them in creation order. A rank key is the decimal string of an integer, so it is an
  array index exactly when the integer is in that range.
\<close>

definition is_array_index :: "int \<Rightarrow> bool" where
  "is_array_index k \<longleftrightarrow> 0 \<le> k \<and> k < 2 ^ 32 - 1"

definition own_entries :: "int object \<Rightarrow> (int \<times> nat) list" where
  "own_entries obj =
     sort_key fst (filter (\<lambda>p. is_array_index (fst p)) obj)
       @ filter (\<lambda>p. \<not> is_array_index (fst p)) obj"

definition Object_keys :: "int object \<Rightarrow> int list" where
  "Object_keys obj = map fst (own_entries obj)"

definition Object_values :: "int object \<Rightarrow> nat list" where
  "Object_values obj = map snd (own_entries obj)"


section \<open>The detectors\<close>

text \<open>
  \<^verbatim>\<open>Math.max(...xs)\<close>; \<open>None\<close> is the \<open>-Infinity\<close> of an empty argument list.
\<close>

fun Math_max :: "nat list \<Rightarrow> nat option" where
  "Math_max [] = None"
| "Math_max (x # xs) = Some (fold max xs x)"

text \<open>
  \<^verbatim>\<open>Math.max(...Object.values(suitCounts)) === TOTAL_CARDS\<close>. The values of the suit
  object are taken in creation order: the maximum does not depend on the order.
\<close>

definition isFlush :: "string object \<Rightarrow> bool" where
  "isFlush suit_counts \<longleftrightarrow> Math_max (map snd suit_counts) = Some TOTAL_CARDS"

text \<open>\<^verbatim>\<open>xs.slice(-n)\<close>: the last \<open>n\<close> elements, the whole array when it is shorter.\<close>

definition slice_last :: "nat \<Rightarrow> 'a list \<Rightarrow> 'a list" where
  "slice_last n xs = drop (length xs - n) xs"

text \<open>\<^verbatim>\<open>xs.every((val, index) => p(val, index))\<close>\<close>

definition every_indexed :: "('a \<Rightarrow> nat \<Rightarrow> bool) \<Rightarrow> 'a list \<Rightarrow> bool" where
  "every_indexed p xs \<longleftrightarrow> list_all (\<lambda>(index, val). p val index) (enumerate 0 xs)"

definition isRoyal :: "int list \<Rightarrow> bool" where
  "isRoyal ranks \<longleftrightarrow>
     ACE_RANK \<in> set ranks
     \<and> every_indexed (\<lambda>val index. val = BROADWAY_START + int index)
         (slice_last ROYAL_TAIL_LENGTH ranks)"

text \<open>
  The index reads \<open>ranks[4]\<close> and \<open>ranks[0]\<close> happen only behind the length test, as
  in the source's \<^verbatim>\<open>&&\<close>.
\<close>

definition isStraight :: "int list \<Rightarrow> bool" where
  "isStraight ranks \<longleftrightarrow>
     (let isBroadway = isRoyal ranks
      in (length ranks = TOTAL_CARDS
            \<and> ranks ! (TOTAL_CARDS - 1) - ranks ! 0 = MAX_RANK_DIFF)
         \<or> isBroadway)"


section \<open>Classification\<close>

text \<open>
  The local variables of \<open>evaluatePokerHand\<close> after validation:
  \<^verbatim>\<open>Object.values(rankCounts)\<close> and
  \<^verbatim>\<open>Object.keys(rankCounts).map(Number).sort((a, b) => a - b)\<close>.
\<close>

definition rankFrequencies_of :: "hand \<Rightarrow> nat list" where
  "rankFrequencies_of hand = Object_values (rankCounts (countRanksAndSuits hand))"

definition ranks_of :: "hand \<Rightarrow> int list" where
  "ranks_of hand = sort (Object_keys (rankCounts (countRanksAndSuits hand)))"

definition suitCounts_of :: "hand \<Rightarrow> string object" where
  "suitCounts_of hand = suitCounts (countRanksAndSuits hand)"

text \<open>
  The ordered list of conditions. The source stores each test as a function and calls
  them in turn; the tests are pure and total, so each one is its value here.
\<close>

definition conditions :: "nat list \<Rightarrow> int list \<Rightarrow> string object \<Rightarrow> (bool \<times> string) list" where
  "conditions rankFrequencies ranks suit_counts =
     [(isFlush suit_counts \<and> isRoyal ranks, ''royalflush''),
      (isFlush suit_counts \<and> isStraight ranks, ''straightflush''),
      (FOUR_OF_A_KIND_COUNT \<in> set rankFrequencies, ''fourofakind''),
      (THREE_OF_A_KIND_COUNT \<in> set rankFrequencies \<and> PAIR_COUNT \<in> set rankFrequencies,
         ''fullhouse''),
      (isFlush suit_counts, ''flush''),
      (isStraight ranks, ''straight''),
      (THREE_OF_A_KIND_COUNT \<in> set rankFrequencies, ''threeofakind''),
      (length (filter (\<lambda>freq. freq = PAIR_COUNT) rankFrequencies) = TWO_PAIR_COUNT,
         ''twopair''),
      (PAIR_COUNT \<in> set rankFrequencies, ''pair'')]"

text \<open>
  \<^verbatim>\<open>for (let [conditionFunc, result] of conditions) if (conditionFunc()) return result;\<close>
  and the final \<^verbatim>\<open>return 'highcard'\<close>.
\<close>

fun first_condition :: "(bool \<times> string) list \<Rightarrow> string" where
  "first_condition [] = ''highcard''"
| "first_condition ((conditionFunc, result) # rest) =
     (if conditionFunc then result else first_condition rest)"

definition evaluatePokerHand :: "hand \<Rightarrow> error + string" where
  "evaluatePokerHand hand =
     (case validateHand hand of
        Inl e \<Rightarrow> Inl e
      | Inr _ \<Rightarrow>
          Inr (first_condition
                 (conditions (rankFrequencies_of hand) (ranks_of hand) (suitCounts_of hand))))"


section \<open>The specification's vocabulary\<close>

text \<open>
  The definitions of this section follow the words of the specification and speak about
  the hand itself, not about the objects the code builds. A well-formed hand has exactly
  five cards, every rank between 1 and 13 and every suit one of the four names.
\<close>

definition well_formed :: "hand \<Rightarrow> bool" where
  "well_formed h \<longleftrightarrow>
     length h = 5
     \<and> (\<forall>c \<in> set h. 1 \<le> rank c \<and> rank c \<le> 13
           \<and> suit c \<in> {''club'', ''spade'', ''diamond'', ''heart''})"

text \<open>A card is valid when both of its fields are.\<close>

definition valid_rank :: "card \<Rightarrow> bool" where
  "valid_rank c \<longleftrightarrow> 1 \<le> rank c \<and> rank c \<le> 13"

definition valid_suit :: "card \<Rightarrow> bool" where
  "valid_suit c \<longleftrightarrow> suit c \<in> {''club'', ''spade'', ''diamond'', ''heart''}"

text \<open>
  RankMultiset and SuitMultiset: how often a rank or a suit occurs in the hand, with a
  key for each rank or suit that occurs.
\<close>

definition rank_count :: "hand \<Rightarrow> int \<Rightarrow> nat" where
  "rank_count h r = count_list (map rank h) r"

definition suit_count :: "hand \<Rightarrow> string \<Rightarrow> nat" where
  "suit_count h s = count_list (map suit h) s"

text \<open>The ascending-sorted list of the distinct ranks of the hand.\<close>

definition distinct_ranks :: "hand \<Rightarrow> int list" where
  "distinct_ranks h = sorted_list_of_set (rank ` set h)"

text \<open>"RankMultiset contains a value of \<open>n\<close>".\<close>

definition has_rank_count :: "hand \<Rightarrow> nat \<Rightarrow> bool" where
  "has_rank_count h n \<longleftrightarrow> (\<exists>r \<in> rank ` set h. rank_count h r = n)"

text \<open>The number of distinct ranks whose RankMultiset value is 2.\<close>

definition pair_ranks :: "hand \<Rightarrow> nat" where
  "pair_ranks h = card {r \<in> rank ` set h. rank_count h r = 2}"

text \<open>"The maximum value in SuitMultiset equals 5".\<close>

definition spec_flush :: "hand \<Rightarrow> bool" where
  "spec_flush h \<longleftrightarrow> h \<noteq> [] \<and> Max (suit_count h ` suit ` set h) = 5"

text \<open>
  "The distinct-rank list contains rank 1 and its last 4 elements are 10, 11, 12, 13 in
  order".
\<close>

definition spec_royal :: "hand \<Rightarrow> bool" where
  "spec_royal h \<longleftrightarrow>
     1 \<in> set (distinct_ranks h)
     \<and> drop (length (distinct_ranks h) - 4) (distinct_ranks h) = [10, 11, 12, 13]"

text \<open>
  "The distinct-rank list has exactly 5 elements and the difference between the maximum
  and minimum rank equals 4, or the Royal predicate holds".
\<close>

definition spec_straight :: "hand \<Rightarrow> bool" where
  "spec_straight h \<longleftrightarrow>
     (length (distinct_ranks h) = 5 \<and> Max (rank ` set h) - Min (rank ` set h) = 4)
     \<or> spec_royal h"

text \<open>The decision table of the classifier, first match wins.\<close>

definition spec_classify :: "hand \<Rightarrow> string" where
  "spec_classify h =
     (if spec_flush h \<and> spec_royal h then ''royalflush''
      else if spec_flush h \<and> spec_straight h then ''straightflush''
      else if has_rank_count h 4 then ''fourofakind''
      else if has_rank_count h 3 \<and> has_rank_count h 2 then ''fullhouse''
      else if spec_flush h then ''flush''
      else if spec_straight h then ''straight''
      else if has_rank_count h 3 then ''threeofakind''
      else if pair_ranks h = 2 then ''twopair''
      else if has_rank_count h 2 then ''pair''
      else ''highcard'')"

text \<open>The ten labels.\<close>

definition labels :: "string set" where
  "labels = {''highcard'', ''pair'', ''twopair'', ''threeofakind'', ''straight'', ''flush'',
             ''fullhouse'', ''fourofakind'', ''straightflush'', ''royalflush''}"


section \<open>Vocabulary of the proofs and sample hands\<close>

text \<open>
  The loop body of \<open>countRanksAndSuits\<close> on one object, and the loop on one object:
  \<^verbatim>\<open>obj[k] = (obj[k] || 0) + 1\<close> for each key of a list.
\<close>

definition bump :: "'k \<Rightarrow> 'k object \<Rightarrow> 'k object" where
  "bump k obj = assign k (get_or_zero obj k + 1) obj"

definition tally :: "'k list \<Rightarrow> 'k object \<Rightarrow> 'k object" where
  "tally ks obj = fold bump ks obj"

text \<open>A card, written \<open>mk rank suit\<close>.\<close>

definition mk :: "int \<Rightarrow> string \<Rightarrow> card" where
  "mk r s = \<lparr>rank = r, suit = s\<rparr>"

text \<open>
  The six scenarios of the specification, the wheel, two hands of one rank five times,
  and malformed hands: four cards, invalid ranks only, an invalid suit only, and two
  hands with an invalid rank and an invalid suit in either order of first occurrence.
\<close>

definition royal_flush_hand :: hand where
  "royal_flush_hand =
     [mk 1 ''heart'', mk 10 ''heart'', mk 11 ''heart'', mk 12 ''heart'', mk 13 ''heart'']"

definition straight_flush_hand :: hand where
  "straight_flush_hand =
     [mk 2 ''spade'', mk 3 ''spade'', mk 4 ''spade'', mk 5 ''spade'', mk 6 ''spade'']"

definition four_of_a_kind_hand :: hand where
  "four_of_a_kind_hand =
     [mk 7 ''club'', mk 7 ''spade'', mk 7 ''diamond'', mk 7 ''heart'', mk 2 ''club'']"

definition full_house_hand :: hand where
  "full_house_hand =
     [mk 5 ''club'', mk 5 ''spade'', mk 5 ''diamond'', mk 9 ''heart'', mk 9 ''club'']"

definition straight_hand :: hand where
  "straight_hand =
     [mk 2 ''heart'', mk 3 ''spade'', mk 4 ''diamond'', mk 5 ''club'', mk 6 ''spade'']"

definition high_card_hand :: hand where
  "high_card_hand =
     [mk 2 ''heart'', mk 5 ''spade'', mk 9 ''diamond'', mk 11 ''club'', mk 13 ''heart'']"

definition wheel_hand :: hand where
  "wheel_hand =
     [mk 1 ''heart'', mk 2 ''spade'', mk 3 ''diamond'', mk 4 ''club'', mk 5 ''spade'']"

definition five_aces_hand :: hand where
  "five_aces_hand =
     [mk 1 ''heart'', mk 1 ''heart'', mk 1 ''heart'', mk 1 ''heart'', mk 1 ''heart'']"

definition four_cards :: hand where
  "four_cards = [mk 2 ''heart'', mk 5 ''spade'', mk 9 ''diamond'', mk 11 ''club'']"

definition rank_zero_hand :: hand where
  "rank_zero_hand =
     [mk 2 ''heart'', mk 0 ''spade'', mk 9 ''diamond'', mk 14 ''club'', mk 13 ''heart'']"

definition suit_typo_hand :: hand where
  "suit_typo_hand =
     [mk 2 ''heart'', mk 5 ''spade'', mk 9 ''club '', mk 11 ''club'', mk 13 ''heart'']"

definition five_sevens_hand :: hand where
  "five_sevens_hand =
     [mk 7 ''club'', mk 7 ''spade'', mk 7 ''diamond'', mk 7 ''heart'', mk 7 ''club'']"

definition rank_then_suit_hand :: hand where
  "rank_then_suit_hand =
     [mk 2 ''heart'', mk 0 ''joker'', mk 9 ''club '', mk 14 ''club'', mk 13 ''heart'']"

definition suit_then_rank_hand :: hand where
  "suit_then_rank_hand =
     [mk 2 ''heart'', mk 5 ''club '', mk 0 ''joker'', mk 14 ''club'', mk 13 ''heart'']"

named_theorems sample_hands \<open>the sample hands, unfolded to their cards\<close>

lemmas [sample_hands] =
  mk_def royal_flush_hand_def straight_flush_hand_def four_of_a_kind_hand_def
  full_house_hand_def straight_hand_def high_card_hand_def wheel_hand_def
  five_aces_hand_def four_cards_def rank_zero_hand_def suit_typo_hand_def
  five_sevens_hand_def rank_then_suit_hand_def suit_then_rank_hand_def


section \<open>Auxiliary facts\<close>

subsection \<open>Validation\<close>

lemma valid_rank_set: "r \<in> set VALID_RANKS \<longleftrightarrow> 1 \<le> r \<and> r \<le> 13"
proof
  assume "r \<in> set VALID_RANKS"
  then show "1 \<le> r \<and> r \<le> 13" by (auto simp: VALID_RANKS_def)
next
  assume a: "1 \<le> r \<and> r \<le> 13"
  then have "r = int (nat (r - 1)) + 1" and "nat (r - 1) \<in> {0..<13}" by auto
  then show "r \<in> set VALID_RANKS"
    unfolding VALID_RANKS_def set_map set_upt by (rule image_eqI)
qed

lemma valid_suit_set: "s \<in> set VALID_SUITS \<longleftrightarrow> s \<in> {''club'', ''spade'', ''diamond'', ''heart''}"
  by (simp add: VALID_SUITS_def)

lemma validateCards_ok:
  "validateCards h = Inr () \<longleftrightarrow> (\<forall>c \<in> set h. valid_rank c \<and> valid_suit c)"
  by (induction h) (auto simp add: valid_rank_set valid_suit_set valid_rank_def valid_suit_def simp del: insert_iff)

lemma validateHand_ok: "validateHand h = Inr () \<longleftrightarrow> well_formed h"
  by (simp add: validateHand_def validateCards_ok well_formed_def valid_rank_def valid_suit_def TOTAL_CARDS_def del: insert_iff)

lemma validateCards_first_invalid:
  assumes "\<forall>c \<in> set pre. valid_rank c \<and> valid_suit c"
    and "\<not> (valid_rank c \<and> valid_suit c)"
  shows "validateCards (pre @ c # post) = Inl (if \<not> valid_rank c then InvalidRank else InvalidSuit)"
  using assms
  by (induction pre) (auto simp add: valid_rank_set valid_suit_set valid_rank_def valid_suit_def simp del: insert_iff)

subsection \<open>The counting loop\<close>

lemma map_fst_assign:
  "map fst (assign k v obj) = (if k \<in> fst ` set obj then map fst obj else map fst obj @ [k])"
  by (induction obj) (auto split: if_splits)

lemma keys_assign: "fst ` set (assign k v obj) = insert k (fst ` set obj)"
proof -
  have "set (map fst (assign k v obj)) = insert k (set (map fst obj))"
    unfolding map_fst_assign by auto
  then show ?thesis by simp
qed

lemma distinct_assign: "distinct (map fst obj) \<Longrightarrow> distinct (map fst (assign k v obj))"
  unfolding map_fst_assign by auto

lemma get_assign: "get_or_zero (assign k v obj) k' = (if k' = k then v else get_or_zero obj k')"
  by (induction obj) auto

lemma sum_bump: "sum_list (map snd (bump k obj)) = Suc (sum_list (map snd obj))"
  unfolding bump_def by (induction obj) auto

lemma keys_tally: "fst ` set (tally ks obj) = set ks \<union> fst ` set obj"
  unfolding tally_def by (induction ks arbitrary: obj) (simp_all add: bump_def keys_assign)

lemma distinct_tally: "distinct (map fst obj) \<Longrightarrow> distinct (map fst (tally ks obj))"
  unfolding tally_def by (induction ks arbitrary: obj) (auto simp: bump_def distinct_assign)

lemma get_tally: "get_or_zero (tally ks obj) k = count_list ks k + get_or_zero obj k"
  unfolding tally_def by (induction ks arbitrary: obj) (auto simp: bump_def get_assign)

lemma sum_tally: "sum_list (map snd (tally ks obj)) = length ks + sum_list (map snd obj)"
  unfolding tally_def by (induction ks arbitrary: obj) (auto simp: sum_bump)

lemma entry_iff:
  "distinct (map fst obj) \<Longrightarrow> (k, n) \<in> set obj \<longleftrightarrow> k \<in> fst ` set obj \<and> get_or_zero obj k = n"
  by (induction obj) (auto simp: image_iff)

lemma fold_count_card:
  "fold count_card h acc = \<lparr>rankCounts = tally (map rank h) (rankCounts acc), suitCounts = tally (map suit h) (suitCounts acc)\<rparr>"
  unfolding tally_def by (induction h arbitrary: acc) (auto simp: count_card_def bump_def)

lemma rankCounts_tally: "rankCounts (countRanksAndSuits h) = tally (map rank h) []"
  by (simp add: countRanksAndSuits_def fold_count_card)

lemma suitCounts_tally: "suitCounts (countRanksAndSuits h) = tally (map suit h) []"
  by (simp add: countRanksAndSuits_def fold_count_card)

subsection \<open>The aggregated objects and the hand\<close>

lemma mset_own_entries: "mset (own_entries obj) = mset obj"
  by (simp add: own_entries_def)

lemma set_own_entries: "set (own_entries obj) = set obj"
  by (auto simp: own_entries_def)

lemma set_tally_empty: "set (tally ks []) = (\<lambda>k. (k, count_list ks k)) ` set ks"
proof -
  have d: "distinct (map fst (tally ks []))" by (simp add: distinct_tally)
  have "(k, n) \<in> set (tally ks []) \<longleftrightarrow> k \<in> set ks \<and> count_list ks k = n" for k n
    using entry_iff[OF d, of k n] by (simp add: keys_tally get_tally)
  then show ?thesis by auto
qed

lemma values_tally_empty: "snd ` set (tally ks []) = count_list ks ` set ks"
  by (simp add: set_tally_empty image_image)

lemma length_filter_values:
  assumes "distinct (map fst obj)"
  shows "length (filter P (map snd obj)) = card {k \<in> fst ` set obj. P (get_or_zero obj k)}"
proof -
  have "length (filter P (map snd obj)) = length (map fst (filter (\<lambda>p. P (snd p)) obj))"
    by (simp add: filter_map comp_def)
  also have "\<dots> = card (set (map fst (filter (\<lambda>p. P (snd p)) obj)))"
    using distinct_card[OF distinct_map_filter[OF assms, of "\<lambda>p. P (snd p)"]] by simp
  also have "set (map fst (filter (\<lambda>p. P (snd p)) obj)) = {k \<in> fst ` set obj. P (get_or_zero obj k)}"
    using entry_iff[OF assms] by (auto simp: image_iff) 
  finally show ?thesis .
qed

lemma rankFrequencies_mem: "n \<in> set (rankFrequencies_of h) \<longleftrightarrow> has_rank_count h n"
proof -
  have "set (rankFrequencies_of h) = snd ` set (tally (map rank h) [])"
    by (simp add: rankFrequencies_of_def Object_values_def set_own_entries rankCounts_tally)
  then have "set (rankFrequencies_of h) = count_list (map rank h) ` set (map rank h)"
    by (simp only: values_tally_empty)
  then show ?thesis
    by (auto simp: has_rank_count_def rank_count_def)
qed

lemma rankFrequencies_pairs:
  "length (filter (\<lambda>freq. freq = 2) (rankFrequencies_of h)) = pair_ranks h"
proof -
  let ?obj = "tally (map rank h) []"
  have "mset (rankFrequencies_of h) = mset (map snd ?obj)"
    by (simp add: rankFrequencies_of_def Object_values_def rankCounts_tally mset_own_entries)
  then have "length (filter (\<lambda>freq. freq = 2) (rankFrequencies_of h))
      = length (filter (\<lambda>freq. freq = 2) (map snd ?obj))"
    by (metis mset_filter size_mset)
  also have "\<dots> = card {k \<in> fst ` set ?obj. get_or_zero ?obj k = 2}"
    by (rule length_filter_values) (simp add: distinct_tally)
  also have "\<dots> = pair_ranks h"
    by (simp add: pair_ranks_def keys_tally get_tally rank_count_def)
  finally show ?thesis .
qed

lemma ranks_of_eq: "ranks_of h = distinct_ranks h"
proof -
  let ?obj = "tally (map rank h) []"
  let ?ks = "Object_keys (rankCounts (countRanksAndSuits h))"
  have m: "mset ?ks = mset (map fst ?obj)"
    by (simp add: Object_keys_def rankCounts_tally mset_own_entries)
  have "distinct (map fst ?obj)" by (simp add: distinct_tally)
  with m have d: "distinct ?ks" by (metis mset_eq_imp_distinct_iff)
  have "set ?ks = fst ` set ?obj" using m by (metis mset_eq_setD set_map)
  then have s: "set ?ks = rank ` set h" by (simp add: keys_tally)
  have "sorted_list_of_set (set ?ks) = sort ?ks"
    using d by (simp add: sorted_list_of_set_sort_remdups distinct_remdups_id)
  then show ?thesis by (simp add: ranks_of_def distinct_ranks_def s)
qed

subsection \<open>The detectors and the specification's predicates\<close>

lemma Math_max_eq: "Math_max vs = Some n \<longleftrightarrow> vs \<noteq> [] \<and> Max (set vs) = n"
proof (cases vs)
  case Nil
  then show ?thesis by simp
next
  case (Cons a list)
  then show ?thesis using Max.set_eq_fold[of a list] by simp
qed

lemma isFlush_eq: "isFlush (suitCounts_of h) \<longleftrightarrow> spec_flush h"
proof -
  have "snd ` set (suitCounts_of h) = count_list (map suit h) ` set (map suit h)"
    unfolding suitCounts_of_def suitCounts_tally by (rule values_tally_empty)
  then have "set (map snd (suitCounts_of h)) = suit_count h ` suit ` set h"
    by (simp add: suit_count_def[abs_def])
  moreover have "map snd (suitCounts_of h) \<noteq> [] \<longleftrightarrow> h \<noteq> []"
    using keys_tally[of "map suit h" "[]"] by (auto simp: suitCounts_of_def suitCounts_tally)
  ultimately show ?thesis
    by (simp add: isFlush_def Math_max_eq spec_flush_def TOTAL_CARDS_def)
qed

lemma every_indexed_nth: "every_indexed p xs \<longleftrightarrow> (\<forall>i < length xs. p (xs ! i) i)"
  unfolding every_indexed_def list_all_length by (auto simp: nth_enumerate_eq)

lemma broadway_tail:
  "length t = 4 \<Longrightarrow> (\<forall>i < length t. t ! i = 10 + int i) \<longleftrightarrow> t = [10, 11, 12, 13::int]"
  by (auto simp: list_eq_iff_nth_eq less_Suc_eq numeral_eq_Suc)

lemma isRoyal_eq:
  "isRoyal xs \<longleftrightarrow> 1 \<in> set xs \<and> drop (length xs - 4) xs = [10, 11, 12, 13]"
proof (cases "4 \<le> length xs")
  case True
  then have "length (drop (length xs - 4) xs) = 4" by simp
  from broadway_tail[OF this] show ?thesis
    by (simp add: isRoyal_def every_indexed_nth slice_last_def poker_consts)
next
  case False
  then have t: "drop (length xs - 4) xs = xs" by simp
  have "\<not> (1 \<in> set xs \<and> (\<forall>i < length xs. xs ! i = 10 + int i))"
    by (auto simp: in_set_conv_nth)
  moreover have "xs \<noteq> [10, 11, 12, 13]" using False by auto
  ultimately show ?thesis
    by (simp add: isRoyal_def every_indexed_nth slice_last_def poker_consts t)
qed

lemma sorted_nth_Max:
  fixes xs :: "int list"
  assumes "sorted xs" "xs \<noteq> []"
  shows "Max (set xs) = xs ! (length xs - 1)"
proof (rule Max_eqI)
  show "finite (set xs)" by simp
  show "xs ! (length xs - 1) \<in> set xs" using assms by simp
  fix y assume "y \<in> set xs"
  then obtain i where "i < length xs" "y = xs ! i" by (auto simp: in_set_conv_nth)
  then show "y \<le> xs ! (length xs - 1)" using assms by (simp add: sorted_nth_mono)
qed

lemma sorted_nth_Min:
  fixes xs :: "int list"
  assumes "sorted xs" "xs \<noteq> []"
  shows "Min (set xs) = xs ! 0"
proof (rule Min_eqI)
  show "finite (set xs)" by simp
  show "xs ! 0 \<in> set xs" using assms by simp
  fix y assume "y \<in> set xs"
  then obtain i where "i < length xs" "y = xs ! i" by (auto simp: in_set_conv_nth)
  then show "xs ! 0 \<le> y" using assms by (simp add: sorted_nth_mono)
qed

lemma distinct_ranks_props:
  "sorted (distinct_ranks h)" "distinct (distinct_ranks h)" "set (distinct_ranks h) = rank ` set h"
  "length (distinct_ranks h) = card (rank ` set h)"
  by (simp_all add: distinct_ranks_def)

lemma length_distinct_ranks_le: "length (distinct_ranks h) \<le> length h"
  by (simp add: distinct_ranks_props(4) card_image_le card_length le_trans[OF card_image_le])

lemma isRoyal_spec: "isRoyal (ranks_of h) \<longleftrightarrow> spec_royal h"
  by (simp add: ranks_of_eq isRoyal_eq spec_royal_def)

lemma isStraight_spec: "isStraight (ranks_of h) \<longleftrightarrow> spec_straight h"
proof -
  let ?dr = "distinct_ranks h"
  have "?dr ! 4 - ?dr ! 0 = Max (rank ` set h) - Min (rank ` set h)" if "length ?dr = 5"
  proof -
    have ne: "?dr \<noteq> []" using that by auto
    show ?thesis
      using sorted_nth_Max[OF distinct_ranks_props(1) ne] sorted_nth_Min[OF distinct_ranks_props(1) ne] that
      by (simp add: distinct_ranks_props(3))
  qed
  then show ?thesis
    by (auto simp: isStraight_def isRoyal_spec[unfolded ranks_of_eq] ranks_of_eq spec_straight_def poker_consts)
qed

subsection \<open>The classifier refines the decision table\<close>

lemma first_condition_conditions:
  "first_condition (conditions (rankFrequencies_of h) (ranks_of h) (suitCounts_of h)) = spec_classify h"
  by (simp add: conditions_def spec_classify_def isFlush_eq isRoyal_spec isStraight_spec
      rankFrequencies_mem rankFrequencies_pairs poker_consts)

lemma evaluate_refines: "well_formed h \<Longrightarrow> evaluatePokerHand h = Inr (spec_classify h)"
  by (simp add: evaluatePokerHand_def validateHand_ok[THEN iffD2] first_condition_conditions)

subsection \<open>Hands with the same cards\<close>

lemma count_list_mset: "count_list xs x = count (mset xs) x"
  by (rule count_mset[symmetric])

lemma mset_eq_spec:
  assumes "mset h' = mset h"
  shows "set h' = set h" "length h' = length h" "rank_count h' = rank_count h"
    "suit_count h' = suit_count h" "distinct_ranks h' = distinct_ranks h"
proof -
  show s: "set h' = set h" using assms by (rule mset_eq_setD)
  show "length h' = length h" using assms by (rule mset_eq_length)
  have "mset (map rank h') = mset (map rank h)" using assms by simp
  then have "count_list (map rank h') r = count_list (map rank h) r" for r
    by (simp only: count_list_mset)
  then show "rank_count h' = rank_count h" by (simp add: rank_count_def fun_eq_iff)
  have "mset (map suit h') = mset (map suit h)" using assms by simp
  then have "count_list (map suit h') r = count_list (map suit h) r" for r
    by (simp only: count_list_mset)
  then show "suit_count h' = suit_count h" by (simp add: suit_count_def fun_eq_iff)
  show "distinct_ranks h' = distinct_ranks h" by (simp add: distinct_ranks_def s)
qed

lemma spec_classify_mset:
  assumes "mset h' = mset h"
  shows "spec_classify h' = spec_classify h"
proof -
  note e = mset_eq_spec[OF assms]
  have ne: "h' \<noteq> [] \<longleftrightarrow> h \<noteq> []" using e(2) by auto
  have f: "spec_flush h' = spec_flush h" by (simp add: spec_flush_def e ne)
  have r: "spec_royal h' = spec_royal h" by (simp add: spec_royal_def e)
  have s: "spec_straight h' = spec_straight h" by (simp add: spec_straight_def e r)
  have c: "has_rank_count h' n = has_rank_count h n" for n by (simp add: has_rank_count_def e)
  have p: "pair_ranks h' = pair_ranks h" by (simp add: pair_ranks_def e)
  show ?thesis by (simp add: spec_classify_def f r s c p)
qed

lemma well_formed_mset: "mset h' = mset h \<Longrightarrow> well_formed h' \<longleftrightarrow> well_formed h"
  using mset_eq_spec(1,2)[of h' h] by (simp add: well_formed_def del: insert_iff)

subsection \<open>Particular hands\<close>

lemma count_list_full: "count_list xs x = length xs \<Longrightarrow> y \<in> set xs \<Longrightarrow> y = x"
proof (induction xs)
  case Nil
  then show ?case by simp
next
  case (Cons a xs)
  have le: "count_list xs x \<le> length xs" by (rule count_le_length)
  show ?case
  proof (cases "a = x")
    case True
    with Cons.prems(1) have "count_list xs x = length xs" by simp
    with Cons.IH Cons.prems(2) True show ?thesis by auto
  next
    case False
    with Cons.prems(1) le show ?thesis by simp
  qed
qed

lemma count_list_all: "(\<forall>y \<in> set xs. y = x) \<Longrightarrow> count_list xs x = length xs"
  by (induction xs) auto

lemma flush_one_suit:
  assumes "length h = 5"
  shows "spec_flush h \<longleftrightarrow> (\<forall>c \<in> set h. \<forall>d \<in> set h. suit c = suit d)"
proof
  let ?S = "suit_count h ` suit ` set h"
  assume "spec_flush h"
  then have ne: "h \<noteq> []" and m: "Max ?S = 5"
    by (simp_all add: spec_flush_def)
  have "finite ?S" by simp
  moreover have "?S \<noteq> {}" using ne by simp
  ultimately have "Max ?S \<in> ?S" by (rule Max_in)
  then have "5 \<in> ?S" by (simp only: m)
  then obtain s where "suit_count h s = 5" by (elim imageE) simp
  then have "count_list (map suit h) s = length (map suit h)"
    using assms by (simp add: suit_count_def)
  then have "\<forall>y \<in> set (map suit h). y = s"
    by (blast intro: count_list_full)
  then have "\<forall>c \<in> set h. suit c = s" by simp
  then show "\<forall>c \<in> set h. \<forall>d \<in> set h. suit c = suit d" by simp
next
  assume a: "\<forall>c \<in> set h. \<forall>d \<in> set h. suit c = suit d"
  from assms have ne: "h \<noteq> []" by auto
  then obtain c where c: "c \<in> set h" by (cases h) auto
  define s where "s = suit c"
  have one: "\<forall>d \<in> set h. suit d = s" unfolding s_def using a c by blast
  then have all: "\<forall>y \<in> set (map suit h). y = s" by simp
  have "s \<in> suit ` set h" unfolding s_def using c by (rule imageI)
  with one have "suit ` set h = {s}" by blast
  then have S: "suit_count h ` suit ` set h = {suit_count h s}" by simp
  have "suit_count h s = 5"
    using count_list_all[OF all] assms by (simp add: suit_count_def)
  with S ne show "spec_flush h" by (simp add: spec_flush_def)
qed

lemma one_rank:
  assumes "h \<noteq> []" "\<forall>c \<in> set h. rank c = r"
  shows "rank ` set h = {r}" "rank_count h r = length h" "distinct_ranks h = [r]"
proof -
  from assms obtain c where c: "c \<in> set h" by (cases h) auto
  show s: "rank ` set h = {r}" using assms(2) c by auto
  have "\<forall>y \<in> set (map rank h). y = r" using assms(2) by auto
  from count_list_all[OF this] show "rank_count h r = length h" by (simp add: rank_count_def)
  show "distinct_ranks h = [r]" by (simp add: distinct_ranks_def s)
qed

lemma five_of_a_rank:
  assumes "length h = 5" "\<forall>c \<in> set h. rank c = r"
  shows "spec_classify h = (if spec_flush h then ''flush'' else ''highcard'')"
proof -
  from assms have ne: "h \<noteq> []" by auto
  note o = one_rank[OF ne assms(2)]
  have c: "has_rank_count h n \<longleftrightarrow> n = 5" for n
    using assms(1) by (auto simp: has_rank_count_def o)
  have p: "pair_ranks h = 0" using assms(1) by (simp add: pair_ranks_def o)
  have r: "\<not> spec_royal h" by (simp add: spec_royal_def o)
  have s: "\<not> spec_straight h" by (simp add: spec_straight_def o r)
  show ?thesis by (simp add: spec_classify_def c p r s)
qed

lemma distinct_ranks_all_once:
  assumes "card (rank ` set h) = length h" "r \<in> rank ` set h"
  shows "rank_count h r = 1"
proof -
  have "card (set (map rank h)) = length (map rank h)" using assms(1) by simp
  then have "distinct (map rank h)" by (rule card_distinct)
  then have "count (mset (map rank h)) r = 1" using assms(2)
    by (simp add: distinct_count_atmost_1)
  then show ?thesis by (simp only: rank_count_def count_list_mset)
qed

lemma royal_iff_set:
  assumes "length h \<le> 5"
  shows "spec_royal h \<longleftrightarrow> rank ` set h = {1, 10, 11, 12, 13}"
proof
  let ?dr = "distinct_ranks h"
  assume r: "spec_royal h"
  then have a: "1 \<in> set ?dr" and t: "drop (length ?dr - 4) ?dr = [10, 11, 12, 13]"
    by (simp_all add: spec_royal_def)
  have "set ?dr = set (take (length ?dr - 4) ?dr) \<union> set (drop (length ?dr - 4) ?dr)"
    by (metis append_take_drop_id set_append)
  with a t have "1 \<in> set (take (length ?dr - 4) ?dr)" by auto
  moreover have "length ?dr \<le> 5" using length_distinct_ranks_le[of h] assms by simp
  moreover have l4: "length (drop (length ?dr - 4) ?dr) = 4" using t by simp
  ultimately have l: "length ?dr = 5" by (cases "length ?dr = 5") auto
  then have "length (take (length ?dr - 4) ?dr) = 1" by simp
  then obtain x where x: "take (length ?dr - 4) ?dr = [x]"
    by (cases "take (length ?dr - 4) ?dr") auto
  with \<open>1 \<in> set (take (length ?dr - 4) ?dr)\<close> have "x = 1" by simp
  with x t have "?dr = [1, 10, 11, 12, 13]"
    by (metis append_take_drop_id append_Cons append_Nil)
  then have "set ?dr = {1, 10, 11, 12, 13}" by simp
  then show "rank ` set h = {1, 10, 11, 12, 13}" by (simp add: distinct_ranks_props(3))
next
  assume "rank ` set h = {1, 10, 11, 12, 13}"
  then have "distinct_ranks h = [1, 10, 11, 12, 13]"
    by (simp add: distinct_ranks_def)
  then show "spec_royal h" by (simp add: spec_royal_def)
qed

lemma royal_length: "spec_royal h \<Longrightarrow> length h \<le> 5 \<Longrightarrow> length (distinct_ranks h) = 5"
  using royal_iff_set[of h] by (simp add: distinct_ranks_def)

subsection \<open>The errors of validation\<close>

lemma validateCards_Cons:
  "validateCards (c # cs) =
     (if \<not> valid_rank c then Inl InvalidRank
      else if \<not> valid_suit c then Inl InvalidSuit
      else validateCards cs)"
  by (simp add: valid_rank_set valid_suit_set valid_rank_def valid_suit_def del: insert_iff)

lemma validateCards_not_cardinality: "validateCards h \<noteq> Inl WrongCardinality"
  by (induction h) (simp_all add: validateCards_Cons del: validateCards.simps(2))

lemma validateCards_rank_error:
  "validateCards h = Inl InvalidRank \<Longrightarrow> \<exists>c \<in> set h. \<not> valid_rank c"
  by (induction h) (auto simp add: validateCards_Cons simp del: validateCards.simps(2) split: if_splits)

lemma validateCards_suit_error:
  "validateCards h = Inl InvalidSuit \<Longrightarrow> \<exists>c \<in> set h. \<not> valid_suit c"
  by (induction h) (auto simp add: validateCards_Cons simp del: validateCards.simps(2) split: if_splits)

lemma validateCards_errors:
  "validateCards h = Inr () \<or> validateCards h = Inl InvalidRank \<or> validateCards h = Inl InvalidSuit"
  by (induction h) (auto simp add: validateCards_Cons simp del: validateCards.simps(2))

lemma validateCards_error_split:
  "validateCards h = Inl e \<Longrightarrow>
   \<exists>pre c post. h = pre @ c # post
     \<and> (\<forall>d \<in> set pre. valid_rank d \<and> valid_suit d)
     \<and> \<not> (valid_rank c \<and> valid_suit c)
     \<and> e = (if \<not> valid_rank c then InvalidRank else InvalidSuit)"
proof (induction h)
  case Nil
  then show ?case by simp
next
  case (Cons a h)
  show ?case
  proof (cases "valid_rank a \<and> valid_suit a")
    case True
    with Cons.prems have "validateCards h = Inl e" by (simp add: validateCards_Cons del: validateCards.simps(2))
    from Cons.IH[OF this] obtain pre c post where
      h: "h = pre @ c # post" and p: "\<forall>d \<in> set pre. valid_rank d \<and> valid_suit d"
      and c: "\<not> (valid_rank c \<and> valid_suit c)"
      and e: "e = (if \<not> valid_rank c then InvalidRank else InvalidSuit)" by blast
    from h have "a # h = (a # pre) @ c # post" by simp
    moreover from p True have "\<forall>d \<in> set (a # pre). valid_rank d \<and> valid_suit d" by simp
    ultimately show ?thesis using c e by blast
  next
    case False
    with Cons.prems have "e = (if \<not> valid_rank a then InvalidRank else InvalidSuit)"
      by (auto simp add: validateCards_Cons simp del: validateCards.simps(2) split: if_splits)
    moreover have "a # h = [] @ a # h" by simp
    moreover have "\<forall>d \<in> set []. valid_rank d \<and> valid_suit d" by simp
    ultimately show ?thesis using False by blast
  qed
qed

lemma validateCards_error_iff:
  "validateCards h = Inl e \<longleftrightarrow>
     (\<exists>pre c post. h = pre @ c # post
        \<and> (\<forall>d \<in> set pre. valid_rank d \<and> valid_suit d)
        \<and> \<not> (valid_rank c \<and> valid_suit c)
        \<and> e = (if \<not> valid_rank c then InvalidRank else InvalidSuit))"
proof
  assume "validateCards h = Inl e"
  then show "\<exists>pre c post. h = pre @ c # post
        \<and> (\<forall>d \<in> set pre. valid_rank d \<and> valid_suit d)
        \<and> \<not> (valid_rank c \<and> valid_suit c)
        \<and> e = (if \<not> valid_rank c then InvalidRank else InvalidSuit)"
    by (rule validateCards_error_split)
next
  assume "\<exists>pre c post. h = pre @ c # post
        \<and> (\<forall>d \<in> set pre. valid_rank d \<and> valid_suit d)
        \<and> \<not> (valid_rank c \<and> valid_suit c)
        \<and> e = (if \<not> valid_rank c then InvalidRank else InvalidSuit)"
  then obtain pre c post where h: "h = pre @ c # post"
    and p: "\<forall>d \<in> set pre. valid_rank d \<and> valid_suit d"
    and c: "\<not> (valid_rank c \<and> valid_suit c)"
    and e: "e = (if \<not> valid_rank c then InvalidRank else InvalidSuit)" by blast
  from validateCards_first_invalid[OF p c, of post] show "validateCards h = Inl e"
    by (simp only: h e)
qed

lemma evaluate_error: "evaluatePokerHand h = Inl e \<longleftrightarrow> validateHand h = Inl e"
  by (cases "validateHand h") (simp_all add: evaluatePokerHand_def)

lemma spec_classify_label: "spec_classify h \<in> labels"
  by (simp add: spec_classify_def labels_def)

lemma validateHand_five: "length h = 5 \<Longrightarrow> validateHand h = validateCards h"
  by (simp add: validateHand_def TOTAL_CARDS_def)

lemma validateHand_cardinality: "validateHand h = Inl WrongCardinality \<longleftrightarrow> length h \<noteq> 5"
  by (simp add: validateHand_def TOTAL_CARDS_def validateCards_not_cardinality)

lemma wheel_classify:
  assumes "length h = 5" "rank ` set h = {1, 2, 3, 4, 5}"
  shows "spec_straight h" "\<not> spec_royal h"
    "spec_classify h = (if spec_flush h then ''straightflush'' else ''straight'')"
proof -
  have dr: "distinct_ranks h = [1, 2, 3, 4, 5]" by (simp add: distinct_ranks_def assms(2))
  show s: "spec_straight h" by (simp add: spec_straight_def dr assms(2))
  show r: "\<not> spec_royal h" by (simp add: spec_royal_def dr)
  have "card (rank ` set h) = length h" by (simp add: assms)
  then have "rank_count h x = 1" if "x \<in> rank ` set h" for x
    using that by (rule distinct_ranks_all_once)
  then have c: "has_rank_count h n \<longleftrightarrow> n = 1" for n
    unfolding has_rank_count_def using assms(2) by auto
  show "spec_classify h = (if spec_flush h then ''straightflush'' else ''straight'')"
    by (simp add: spec_classify_def s r c)
qed


subsection \<open>The scenarios of the specification\<close>

text \<open>The model run on the six scenarios and on the three boundary hands.\<close>

lemma scenarios:
  "evaluatePokerHand royal_flush_hand = Inr ''royalflush''"
  "evaluatePokerHand straight_flush_hand = Inr ''straightflush''"
  "evaluatePokerHand four_of_a_kind_hand = Inr ''fourofakind''"
  "evaluatePokerHand full_house_hand = Inr ''fullhouse''"
  "evaluatePokerHand straight_hand = Inr ''straight''"
  "evaluatePokerHand high_card_hand = Inr ''highcard''"
  by code_simp+

lemma boundaries:
  "evaluatePokerHand four_cards = Inl WrongCardinality"
  "evaluatePokerHand rank_zero_hand = Inl InvalidRank"
  "evaluatePokerHand suit_typo_hand = Inl InvalidSuit"
  by code_simp+


section \<open>The claims\<close>

subsection \<open>C1\<close>

text \<open>
  Claim C1. For every well-formed hand \<open>evaluatePokerHand\<close> returns the label of the
  first predicate that holds, in this order: flush and royal, flush and straight, some
  rank count equal to 4, some rank count equal to 3 and some rank count equal to 2, flush,
  straight, some rank count equal to 3, exactly 2 distinct ranks with count 2, some rank
  count equal to 2; and \<open>highcard\<close> when none holds. The predicates are those of the
  specification, stated on the hand.
\<close>

theorem C1_first_true_predicate:
  "well_formed h \<Longrightarrow>
   evaluatePokerHand h =
     Inr (if spec_flush h \<and> spec_royal h then ''royalflush''
          else if spec_flush h \<and> spec_straight h then ''straightflush''
          else if has_rank_count h 4 then ''fourofakind''
          else if has_rank_count h 3 \<and> has_rank_count h 2 then ''fullhouse''
          else if spec_flush h then ''flush''
          else if spec_straight h then ''straight''
          else if has_rank_count h 3 then ''threeofakind''
          else if pair_ranks h = 2 then ''twopair''
          else if has_rank_count h 2 then ''pair''
          else ''highcard'')"
  using evaluate_refines[of h] by (simp only: spec_classify_def)

theorem C1_first_true_predicate_witness:
  "well_formed full_house_hand
   \<and> evaluatePokerHand full_house_hand = Inr ''fullhouse''
   \<and> (if spec_flush full_house_hand \<and> spec_royal full_house_hand then ''royalflush''
       else if spec_flush full_house_hand \<and> spec_straight full_house_hand then ''straightflush''
       else if has_rank_count full_house_hand 4 then ''fourofakind''
       else if has_rank_count full_house_hand 3 \<and> has_rank_count full_house_hand 2
         then ''fullhouse''
       else if spec_flush full_house_hand then ''flush''
       else if spec_straight full_house_hand then ''straight''
       else if has_rank_count full_house_hand 3 then ''threeofakind''
       else if pair_ranks full_house_hand = 2 then ''twopair''
       else if has_rank_count full_house_hand 2 then ''pair''
       else ''highcard'') = ''fullhouse''"
proof -
  have wf: "well_formed full_house_hand"
    by (simp add: sample_hands well_formed_def)
  have ev: "evaluatePokerHand full_house_hand = Inr ''fullhouse''"
    by code_simp
  from C1_first_true_predicate[OF wf] ev wf show ?thesis by simp
qed

subsection \<open>C2\<close>

text \<open>
  Claim C2, amended. For every well-formed hand whose distinct ranks are exactly
  \<open>{1, 2, 3, 4, 5}\<close> (the wheel) the straight predicate is true: the five distinct
  ranks are sorted to \<open>[1, 2, 3, 4, 5]\<close> and \<open>5 - 1 = 4\<close>. Such a hand is classified
  \<open>straight\<close> when its suits are mixed and \<open>straightflush\<close> when it is a flush.
\<close>

theorem C2_wheel_is_straight:
  assumes "well_formed h" and "rank ` set h = {1, 2, 3, 4, 5}"
  shows "isStraight (ranks_of h)
         \<and> evaluatePokerHand h =
             Inr (if isFlush (suitCounts_of h) then ''straightflush'' else ''straight'')"
proof -
  from assms(1) have l: "length h = 5" by (simp add: well_formed_def)
  note w = wheel_classify[OF l assms(2)]
  from w(1) have "isStraight (ranks_of h)" by (simp add: isStraight_spec)
  moreover have "evaluatePokerHand h =
      Inr (if isFlush (suitCounts_of h) then ''straightflush'' else ''straight'')"
    using evaluate_refines[OF assms(1)] by (simp add: w(3) isFlush_eq)
  ultimately show ?thesis by blast
qed

theorem C2_wheel_is_straight_witness:
  "well_formed wheel_hand \<and> rank ` set wheel_hand = {1, 2, 3, 4, 5}
   \<and> isStraight (ranks_of wheel_hand)
   \<and> evaluatePokerHand wheel_hand =
       Inr (if isFlush (suitCounts_of wheel_hand) then ''straightflush'' else ''straight'')"
proof -
  have wf: "well_formed wheel_hand" by (simp add: sample_hands well_formed_def)
  have rs: "rank ` set wheel_hand = {1, 2, 3, 4, 5}" by (simp add: sample_hands)
  from C2_wheel_is_straight[OF wf rs] wf rs show ?thesis by blast
qed

text \<open>
  Claim C2 as worded says that the wheel is not detected as a straight. The mixed-suit
  hand A-2-3-4-5 is well-formed, the straight predicate holds of it and it is classified
  \<open>straight\<close>.
\<close>

theorem C2_wheel_counterexample:
  "well_formed wheel_hand
   \<and> rank ` set wheel_hand = {1, 2, 3, 4, 5}
   \<and> isStraight (ranks_of wheel_hand)
   \<and> \<not> isFlush (suitCounts_of wheel_hand)
   \<and> evaluatePokerHand wheel_hand = Inr ''straight''"
proof -
  have "well_formed wheel_hand" by (simp add: sample_hands well_formed_def)
  moreover have "rank ` set wheel_hand = {1, 2, 3, 4, 5}" by (simp add: sample_hands)
  moreover have "isStraight (ranks_of wheel_hand)" by code_simp
  moreover have "\<not> isFlush (suitCounts_of wheel_hand)" by code_simp
  moreover have "evaluatePokerHand wheel_hand = Inr ''straight''" by code_simp
  ultimately show ?thesis by blast
qed

subsection \<open>C3\<close>

text \<open>
  Claim C3. For every well-formed hand, \<open>ranks\<close> is the ascending-sorted list of the
  distinct ranks, and the straight predicate is true of it if and only if it has exactly
  5 elements and its maximum minus its minimum is 4, or the Royal predicate holds of it.
\<close>

theorem C3_straight_predicate:
  assumes "well_formed h"
  shows "ranks_of h = sorted_list_of_set (rank ` set h)
         \<and> (isStraight (ranks_of h) \<longleftrightarrow>
              (length (ranks_of h) = 5
                 \<and> Max (set (ranks_of h)) - Min (set (ranks_of h)) = 4)
              \<or> isRoyal (ranks_of h))"
proof -
  have e: "ranks_of h = distinct_ranks h" by (rule ranks_of_eq)
  have r: "isRoyal (distinct_ranks h) \<longleftrightarrow> spec_royal h"
    using isRoyal_spec[of h] by (simp only: e)
  have "isStraight (ranks_of h) \<longleftrightarrow> spec_straight h" by (rule isStraight_spec)
  then have "isStraight (ranks_of h) \<longleftrightarrow>
      (length (ranks_of h) = 5
         \<and> Max (set (ranks_of h)) - Min (set (ranks_of h)) = 4)
      \<or> isRoyal (ranks_of h)"
    by (simp only: spec_straight_def e r distinct_ranks_props(3))
  moreover have "ranks_of h = sorted_list_of_set (rank ` set h)"
    by (simp only: e distinct_ranks_def)
  ultimately show ?thesis by blast
qed

theorem C3_straight_predicate_witness:
  "well_formed straight_hand
   \<and> ranks_of straight_hand = sorted_list_of_set (rank ` set straight_hand)
   \<and> isStraight (ranks_of straight_hand)
   \<and> length (ranks_of straight_hand) = 5
   \<and> Max (set (ranks_of straight_hand)) - Min (set (ranks_of straight_hand)) = 4"
proof -
  have wf: "well_formed straight_hand" by (simp add: sample_hands well_formed_def)
  have l: "length (ranks_of straight_hand) = 5" by code_simp
  have m: "Max (set (ranks_of straight_hand)) - Min (set (ranks_of straight_hand)) = 4"
    by code_simp
  from C3_straight_predicate[OF wf] wf l m show ?thesis by blast
qed

subsection \<open>C4\<close>

text \<open>
  Claim C4. For every well-formed hand, the Royal predicate (the Ace is in the distinct-rank
  list and the last 4 elements of that list are 10, 11, 12, 13 in order) is true if and
  only if the set of the ranks of the hand is exactly \<open>{1, 10, 11, 12, 13}\<close>; and when it
  is true the distinct-rank list has exactly 5 elements.
\<close>

theorem C4_royal_predicate:
  assumes "well_formed h"
  shows "(isRoyal (ranks_of h) \<longleftrightarrow>
            1 \<in> set (ranks_of h)
            \<and> drop (length (ranks_of h) - 4) (ranks_of h) = [10, 11, 12, 13])
         \<and> (isRoyal (ranks_of h) \<longleftrightarrow> rank ` set h = {1, 10, 11, 12, 13})
         \<and> (isRoyal (ranks_of h) \<longrightarrow> length (ranks_of h) = 5)"
proof -
  from assms have l: "length h \<le> 5" by (simp add: well_formed_def)
  have a: "isRoyal (ranks_of h) \<longleftrightarrow>
      1 \<in> set (ranks_of h)
      \<and> drop (length (ranks_of h) - 4) (ranks_of h) = [10, 11, 12, 13]"
    by (rule isRoyal_eq)
  have b: "isRoyal (ranks_of h) \<longleftrightarrow> rank ` set h = {1, 10, 11, 12, 13}"
    using royal_iff_set[OF l] by (simp only: isRoyal_spec)
  have c: "isRoyal (ranks_of h) \<longrightarrow> length (ranks_of h) = 5"
  proof
    assume "isRoyal (ranks_of h)"
    then have "spec_royal h" by (simp only: isRoyal_spec)
    from royal_length[OF this l] show "length (ranks_of h) = 5" by (simp only: ranks_of_eq)
  qed
  from a b c show ?thesis by blast
qed

theorem C4_royal_predicate_witness:
  "well_formed royal_flush_hand
   \<and> rank ` set royal_flush_hand = {1, 10, 11, 12, 13}
   \<and> isRoyal (ranks_of royal_flush_hand)
   \<and> length (ranks_of royal_flush_hand) = 5"
proof -
  have wf: "well_formed royal_flush_hand" by (simp add: sample_hands well_formed_def)
  have rs: "rank ` set royal_flush_hand = {1, 10, 11, 12, 13}" by (simp add: sample_hands)
  from C4_royal_predicate[OF wf] wf rs show ?thesis by blast
qed

subsection \<open>C5\<close>

text \<open>
  Claim C5. \<open>evaluatePokerHand\<close> fails exactly on the malformed hands, and the failure
  is the one of \<open>validateHand\<close>, which runs before anything is counted or classified.
  The error is the wrong-cardinality one exactly when the hand does not have 5 cards. A
  5-card hand with a rank outside 1 to 13 and no invalid suit fails with the invalid-rank
  error, a 5-card hand with a suit that is not one of the four names and no invalid rank
  with the invalid-suit error, and a well-formed hand gets one of the ten labels. The
  last two parts say exactly when each of the two field errors is raised: the hand has 5
  cards and its first invalid card has an invalid rank, respectively a valid rank and an
  invalid suit (the order of the checks is the subject of claim C10).
\<close>

theorem C5_validation:
  "((\<exists>e. evaluatePokerHand h = Inl e) \<longleftrightarrow> \<not> well_formed h)
   \<and> (\<forall>e. evaluatePokerHand h = Inl e \<longleftrightarrow> validateHand h = Inl e)
   \<and> (evaluatePokerHand h = Inl WrongCardinality \<longleftrightarrow> length h \<noteq> 5)
   \<and> (length h = 5 \<and> (\<exists>c \<in> set h. \<not> valid_rank c) \<and> (\<forall>c \<in> set h. valid_suit c)
        \<longrightarrow> evaluatePokerHand h = Inl InvalidRank)
   \<and> (length h = 5 \<and> (\<exists>c \<in> set h. \<not> valid_suit c) \<and> (\<forall>c \<in> set h. valid_rank c)
        \<longrightarrow> evaluatePokerHand h = Inl InvalidSuit)
   \<and> (well_formed h \<longrightarrow> (\<exists>l \<in> labels. evaluatePokerHand h = Inr l))
   \<and> (evaluatePokerHand h = Inl InvalidRank \<longleftrightarrow>
        length h = 5
        \<and> (\<exists>pre c post. h = pre @ c # post
              \<and> (\<forall>d \<in> set pre. valid_rank d \<and> valid_suit d) \<and> \<not> valid_rank c))
   \<and> (evaluatePokerHand h = Inl InvalidSuit \<longleftrightarrow>
        length h = 5
        \<and> (\<exists>pre c post. h = pre @ c # post
              \<and> (\<forall>d \<in> set pre. valid_rank d \<and> valid_suit d)
              \<and> valid_rank c \<and> \<not> valid_suit c))"
proof (intro conjI)
  show "(\<exists>e. evaluatePokerHand h = Inl e) \<longleftrightarrow> \<not> well_formed h"
    unfolding evaluate_error validateHand_ok[symmetric]
    by (cases "validateHand h") auto
  show "\<forall>e. evaluatePokerHand h = Inl e \<longleftrightarrow> validateHand h = Inl e"
    by (simp add: evaluate_error)
  show "evaluatePokerHand h = Inl WrongCardinality \<longleftrightarrow> length h \<noteq> 5"
    by (simp add: evaluate_error validateHand_cardinality)
  show "length h = 5 \<and> (\<exists>c \<in> set h. \<not> valid_rank c) \<and> (\<forall>c \<in> set h. valid_suit c)
        \<longrightarrow> evaluatePokerHand h = Inl InvalidRank"
  proof (intro impI, elim conjE)
    assume l: "length h = 5" and r: "\<exists>c \<in> set h. \<not> valid_rank c"
      and s: "\<forall>c \<in> set h. valid_suit c"
    from r have "validateCards h \<noteq> Inr ()" by (auto simp: validateCards_ok)
    moreover from s have "validateCards h \<noteq> Inl InvalidSuit"
      by (blast dest: validateCards_suit_error)
    ultimately have "validateCards h = Inl InvalidRank"
      using validateCards_errors[of h] by blast
    then show "evaluatePokerHand h = Inl InvalidRank"
      by (simp add: evaluate_error validateHand_five[OF l])
  qed
  show "length h = 5 \<and> (\<exists>c \<in> set h. \<not> valid_suit c) \<and> (\<forall>c \<in> set h. valid_rank c)
        \<longrightarrow> evaluatePokerHand h = Inl InvalidSuit"
  proof (intro impI, elim conjE)
    assume l: "length h = 5" and r: "\<exists>c \<in> set h. \<not> valid_suit c"
      and s: "\<forall>c \<in> set h. valid_rank c"
    from r have "validateCards h \<noteq> Inr ()" by (auto simp: validateCards_ok)
    moreover from s have "validateCards h \<noteq> Inl InvalidRank"
      by (blast dest: validateCards_rank_error)
    ultimately have "validateCards h = Inl InvalidSuit"
      using validateCards_errors[of h] by blast
    then show "evaluatePokerHand h = Inl InvalidSuit"
      by (simp add: evaluate_error validateHand_five[OF l])
  qed
  show "well_formed h \<longrightarrow> (\<exists>l \<in> labels. evaluatePokerHand h = Inr l)"
    using evaluate_refines[of h] spec_classify_label[of h] by auto
  have v: "evaluatePokerHand h = Inl e \<longleftrightarrow> length h = 5 \<and> validateCards h = Inl e"
    if "e \<noteq> WrongCardinality" for e
    using that by (auto simp: evaluate_error validateHand_def TOTAL_CARDS_def)
  show "evaluatePokerHand h = Inl InvalidRank \<longleftrightarrow>
        length h = 5
        \<and> (\<exists>pre c post. h = pre @ c # post
              \<and> (\<forall>d \<in> set pre. valid_rank d \<and> valid_suit d) \<and> \<not> valid_rank c)"
    unfolding v[of InvalidRank, simplified] validateCards_error_iff[of h InvalidRank]
    by (auto split: if_splits)
  show "evaluatePokerHand h = Inl InvalidSuit \<longleftrightarrow>
        length h = 5
        \<and> (\<exists>pre c post. h = pre @ c # post
              \<and> (\<forall>d \<in> set pre. valid_rank d \<and> valid_suit d)
              \<and> valid_rank c \<and> \<not> valid_suit c)"
    unfolding v[of InvalidSuit, simplified] validateCards_error_iff[of h InvalidSuit]
    by (auto split: if_splits)
qed

theorem C5_validation_witness:
  "length four_cards \<noteq> 5
   \<and> evaluatePokerHand four_cards = Inl WrongCardinality
   \<and> (\<exists>c \<in> set rank_zero_hand. \<not> valid_rank c)
   \<and> evaluatePokerHand rank_zero_hand = Inl InvalidRank
   \<and> (\<exists>c \<in> set suit_typo_hand. \<not> valid_suit c)
   \<and> evaluatePokerHand suit_typo_hand = Inl InvalidSuit
   \<and> well_formed high_card_hand
   \<and> (\<exists>l \<in> labels. evaluatePokerHand high_card_hand = Inr l)"
proof -
  have a: "length four_cards \<noteq> 5"
    by (simp add: sample_hands)
  have b: "length rank_zero_hand = 5 \<and> (\<exists>c \<in> set rank_zero_hand. \<not> valid_rank c)
           \<and> (\<forall>c \<in> set rank_zero_hand. valid_suit c)"
    by (simp add: sample_hands valid_rank_def valid_suit_def)
  have c: "length suit_typo_hand = 5 \<and> (\<exists>c \<in> set suit_typo_hand. \<not> valid_suit c)
           \<and> (\<forall>c \<in> set suit_typo_hand. valid_rank c)"
    by (simp add: sample_hands valid_rank_def valid_suit_def)
  have d: "well_formed high_card_hand"
    by (simp add: sample_hands well_formed_def)
  note cardinality = C5_validation[of four_cards, THEN conjunct2, THEN conjunct2, THEN conjunct1]
  note rank_only = C5_validation[of rank_zero_hand, THEN conjunct2, THEN conjunct2,
      THEN conjunct2, THEN conjunct1]
  note suit_only = C5_validation[of suit_typo_hand, THEN conjunct2, THEN conjunct2,
      THEN conjunct2, THEN conjunct2, THEN conjunct1]
  note label = C5_validation[of high_card_hand, THEN conjunct2, THEN conjunct2,
      THEN conjunct2, THEN conjunct2, THEN conjunct2, THEN conjunct1]
  from a cardinality
  have "evaluatePokerHand four_cards = Inl WrongCardinality" by blast
  moreover from b rank_only
  have "evaluatePokerHand rank_zero_hand = Inl InvalidRank" by blast
  moreover from c suit_only
  have "evaluatePokerHand suit_typo_hand = Inl InvalidSuit" by blast
  moreover from d label
  have "\<exists>l \<in> labels. evaluatePokerHand high_card_hand = Inr l" by blast
  ultimately show ?thesis using a b c d by blast
qed

subsection \<open>C6\<close>

text \<open>
  Claim C6. A well-formed hand of which both the flush predicate and the straight
  predicate hold is classified \<open>straightflush\<close> or \<open>royalflush\<close>, never \<open>flush\<close>.
\<close>

theorem C6_straight_flush_precedence:
  assumes "well_formed h" and "isFlush (suitCounts_of h)" and "isStraight (ranks_of h)"
  shows "(evaluatePokerHand h = Inr ''straightflush'' \<or> evaluatePokerHand h = Inr ''royalflush'')
         \<and> evaluatePokerHand h \<noteq> Inr ''flush''"
proof -
  from assms(1) have v: "validateHand h = Inr ()" by (simp only: validateHand_ok)
  have "evaluatePokerHand h =
      Inr (if isRoyal (ranks_of h) then ''royalflush'' else ''straightflush'')"
    using assms(2,3) by (simp add: evaluatePokerHand_def v conditions_def)
  then show ?thesis by simp
qed

theorem C6_straight_flush_precedence_witness:
  "well_formed straight_flush_hand
   \<and> isFlush (suitCounts_of straight_flush_hand)
   \<and> isStraight (ranks_of straight_flush_hand)
   \<and> (evaluatePokerHand straight_flush_hand = Inr ''straightflush''
        \<or> evaluatePokerHand straight_flush_hand = Inr ''royalflush'')
   \<and> evaluatePokerHand straight_flush_hand \<noteq> Inr ''flush''"
proof -
  have wf: "well_formed straight_flush_hand" by (simp add: sample_hands well_formed_def)
  have f: "isFlush (suitCounts_of straight_flush_hand)" by code_simp
  have s: "isStraight (ranks_of straight_flush_hand)" by code_simp
  from C6_straight_flush_precedence[OF wf f s] wf f s show ?thesis by blast
qed

subsection \<open>C7\<close>

text \<open>
  Claim C7. The label depends on the cards of the hand only, not on their order: a
  permutation of a well-formed hand is well-formed and gets the same result. (The model
  is a function, so evaluating the same hand again gives the same result.)
\<close>

theorem C7_permutation_invariant:
  assumes "well_formed h" and "mset h' = mset h"
  shows "well_formed h' \<and> evaluatePokerHand h' = evaluatePokerHand h"
proof -
  have wf': "well_formed h'" using well_formed_mset[OF assms(2)] assms(1) by blast
  have "evaluatePokerHand h' = Inr (spec_classify h')" using wf' by (rule evaluate_refines)
  also have "\<dots> = Inr (spec_classify h)" by (simp only: spec_classify_mset[OF assms(2)])
  also have "\<dots> = evaluatePokerHand h" using assms(1) by (rule evaluate_refines[symmetric])
  finally show ?thesis using wf' by blast
qed

theorem C7_permutation_invariant_witness:
  "well_formed straight_hand
   \<and> mset (rev straight_hand) = mset straight_hand
   \<and> rev straight_hand \<noteq> straight_hand
   \<and> evaluatePokerHand (rev straight_hand) = evaluatePokerHand straight_hand"
proof -
  have wf: "well_formed straight_hand" by (simp add: sample_hands well_formed_def)
  have p: "mset (rev straight_hand) = mset straight_hand" by simp
  have n: "rev straight_hand \<noteq> straight_hand" by (simp add: sample_hands)
  from C7_permutation_invariant[OF wf p] wf p n show ?thesis by blast
qed

subsection \<open>C8\<close>

text \<open>
  Claim C8, amended. For every well-formed hand the rank object has one key for each rank
  that occurs and no other, every key between 1 and 13, every value the number of
  occurrences of its key, between 1 and 5, and the values sum to 5; likewise the suit
  object has one key for each suit that occurs, each one of the four names, every value
  between 1 and 5, and the values sum to 5.
\<close>

theorem C8_multiset_invariants:
  assumes "well_formed h"
  shows "sum_list (map snd (rankCounts (countRanksAndSuits h))) = 5
         \<and> distinct (map fst (rankCounts (countRanksAndSuits h)))
         \<and> fst ` set (rankCounts (countRanksAndSuits h)) = rank ` set h
         \<and> (\<forall>(r, n) \<in> set (rankCounts (countRanksAndSuits h)).
                1 \<le> r \<and> r \<le> 13 \<and> n = rank_count h r \<and> 1 \<le> n \<and> n \<le> 5)
         \<and> sum_list (map snd (suitCounts (countRanksAndSuits h))) = 5
         \<and> distinct (map fst (suitCounts (countRanksAndSuits h)))
         \<and> fst ` set (suitCounts (countRanksAndSuits h)) = suit ` set h
         \<and> (\<forall>(s, n) \<in> set (suitCounts (countRanksAndSuits h)).
                s \<in> {''club'', ''spade'', ''diamond'', ''heart''}
                \<and> n = suit_count h s \<and> 1 \<le> n \<and> n \<le> 5)"
proof -
  from assms have l: "length h = 5"
    and r: "\<And>c. c \<in> set h \<Longrightarrow> 1 \<le> rank c \<and> rank c \<le> 13"
    and s: "\<And>c. c \<in> set h \<Longrightarrow> suit c \<in> {''club'', ''spade'', ''diamond'', ''heart''}"
    by (simp_all add: well_formed_def del: insert_iff)
  have cnt: "1 \<le> count_list xs x \<and> count_list xs x \<le> length xs" if "x \<in> set xs" for xs and x :: 'a
    using that count_le_length[of xs x] count_list_0_iff[of xs x] by (simp add: Suc_le_eq)
  have 1: "sum_list (map snd (rankCounts (countRanksAndSuits h))) = 5"
    by (simp add: rankCounts_tally sum_tally l)
  have 2: "distinct (map fst (rankCounts (countRanksAndSuits h)))"
    by (simp add: rankCounts_tally distinct_tally)
  have 3: "fst ` set (rankCounts (countRanksAndSuits h)) = rank ` set h"
    by (simp add: rankCounts_tally keys_tally)
  have 4: "\<forall>(r, n) \<in> set (rankCounts (countRanksAndSuits h)).
                1 \<le> r \<and> r \<le> 13 \<and> n = rank_count h r \<and> 1 \<le> n \<and> n \<le> 5"
    using r cnt[of _ "map rank h"] l
    by (auto simp: rankCounts_tally set_tally_empty rank_count_def)
  have 5: "sum_list (map snd (suitCounts (countRanksAndSuits h))) = 5"
    by (simp add: suitCounts_tally sum_tally l)
  have 6: "distinct (map fst (suitCounts (countRanksAndSuits h)))"
    by (simp add: suitCounts_tally distinct_tally)
  have 7: "fst ` set (suitCounts (countRanksAndSuits h)) = suit ` set h"
    by (simp add: suitCounts_tally keys_tally)
  have 8: "\<forall>(s, n) \<in> set (suitCounts (countRanksAndSuits h)).
                s \<in> {''club'', ''spade'', ''diamond'', ''heart''}
                \<and> n = suit_count h s \<and> 1 \<le> n \<and> n \<le> 5"
    using s cnt[of _ "map suit h"] l
    by (auto simp: suitCounts_tally set_tally_empty suit_count_def simp del: insert_iff)
  from 1 2 3 4 5 6 7 8 show ?thesis by blast
qed

theorem C8_multiset_invariants_witness:
  "well_formed full_house_hand
   \<and> rankCounts (countRanksAndSuits full_house_hand) = [(5, 3), (9, 2)]
   \<and> sum_list (map snd (rankCounts (countRanksAndSuits full_house_hand))) = 5
   \<and> fst ` set (rankCounts (countRanksAndSuits full_house_hand)) = rank ` set full_house_hand
   \<and> sum_list (map snd (suitCounts (countRanksAndSuits full_house_hand))) = 5
   \<and> fst ` set (suitCounts (countRanksAndSuits full_house_hand)) = suit ` set full_house_hand"
proof -
  have wf: "well_formed full_house_hand" by (simp add: sample_hands well_formed_def)
  have rc: "rankCounts (countRanksAndSuits full_house_hand) = [(5, 3), (9, 2)]" by code_simp
  note t = C8_multiset_invariants[OF wf]
  note c1 = t[THEN conjunct1]
  note c3 = t[THEN conjunct2, THEN conjunct2, THEN conjunct1]
  note c5 = t[THEN conjunct2, THEN conjunct2, THEN conjunct2, THEN conjunct2, THEN conjunct1]
  note c7 = t[THEN conjunct2, THEN conjunct2, THEN conjunct2, THEN conjunct2, THEN conjunct2,
      THEN conjunct2, THEN conjunct1]
  from wf rc c1 c3 c5 c7 show ?thesis by blast
qed

text \<open>
  Claim C8 as worded bounds every rank count by 4. Validation accepts the same card
  several times, so a well-formed hand can hold one rank five times, and its count is 5.
\<close>

theorem C8_five_of_a_rank_counterexample:
  "well_formed five_aces_hand
   \<and> rankCounts (countRanksAndSuits five_aces_hand) = [(1, 5)]"
proof -
  have "well_formed five_aces_hand" by (simp add: sample_hands well_formed_def)
  moreover have "rankCounts (countRanksAndSuits five_aces_hand) = [(1, 5)]" by code_simp
  ultimately show ?thesis by blast
qed

subsection \<open>C9\<close>

text \<open>
  Claim C9. A well-formed hand in which one rank occurs five times is never classified
  \<open>fourofakind\<close>: it is classified \<open>flush\<close> when all its cards have the same suit and
  \<open>highcard\<close> otherwise.
\<close>

theorem C9_five_of_a_rank:
  assumes "well_formed h" and "\<forall>c \<in> set h. rank c = r"
  shows "evaluatePokerHand h \<noteq> Inr ''fourofakind''
         \<and> evaluatePokerHand h =
             Inr (if (\<forall>c \<in> set h. \<forall>d \<in> set h. suit c = suit d) then ''flush''
                  else ''highcard'')"
proof -
  from assms(1) have l: "length h = 5" by (simp add: well_formed_def)
  have a: "evaluatePokerHand h = Inr (spec_classify h)" using assms(1) by (rule evaluate_refines)
  have b: "spec_classify h = (if spec_flush h then ''flush'' else ''highcard'')"
    using l assms(2) by (rule five_of_a_rank)
  have c: "spec_flush h \<longleftrightarrow> (\<forall>c \<in> set h. \<forall>d \<in> set h. suit c = suit d)"
    using l by (rule flush_one_suit)
  have e: "evaluatePokerHand h =
      Inr (if (\<forall>c \<in> set h. \<forall>d \<in> set h. suit c = suit d) then ''flush'' else ''highcard'')"
    by (simp only: a b c)
  have n: "(if Q then ''flush'' else ''highcard'') \<noteq> ''fourofakind''" for Q
    by simp
  have "evaluatePokerHand h \<noteq> Inr ''fourofakind''"
    by (simp only: e sum.inject n not_False_eq_True)
  with e show ?thesis by blast
qed

theorem C9_five_of_a_rank_witness:
  "well_formed five_aces_hand \<and> map rank five_aces_hand = [1, 1, 1, 1, 1]
   \<and> evaluatePokerHand five_aces_hand = Inr ''flush''
   \<and> well_formed five_sevens_hand \<and> map rank five_sevens_hand = [7, 7, 7, 7, 7]
   \<and> evaluatePokerHand five_sevens_hand = Inr ''highcard''"
proof -
  have wa: "well_formed five_aces_hand" by (simp add: sample_hands well_formed_def)
  have ra: "\<forall>c \<in> set five_aces_hand. rank c = 1" by (simp add: sample_hands)
  have sa: "\<forall>c \<in> set five_aces_hand. \<forall>d \<in> set five_aces_hand. suit c = suit d"
    by (simp add: sample_hands)
  have ws: "well_formed five_sevens_hand" by (simp add: five_sevens_hand_def mk_def well_formed_def)
  have rs: "\<forall>c \<in> set five_sevens_hand. rank c = 7" by (simp add: five_sevens_hand_def mk_def)
  have ss: "\<not> (\<forall>c \<in> set five_sevens_hand. \<forall>d \<in> set five_sevens_hand. suit c = suit d)"
    by (simp add: five_sevens_hand_def mk_def)
  have fa: "(if (\<forall>c \<in> set five_aces_hand. \<forall>d \<in> set five_aces_hand. suit c = suit d)
             then ''flush'' else ''highcard'') = ''flush''"
    by (rule if_P[OF sa])
  have fs: "(if (\<forall>c \<in> set five_sevens_hand. \<forall>d \<in> set five_sevens_hand. suit c = suit d)
             then ''flush'' else ''highcard'') = ''highcard''"
    by (rule if_not_P[OF ss])
  from C9_five_of_a_rank[OF wa ra]
  have "evaluatePokerHand five_aces_hand = Inr ''flush''" by (simp only: fa)
  moreover from C9_five_of_a_rank[OF ws rs]
  have "evaluatePokerHand five_sevens_hand = Inr ''highcard''" by (simp only: fs)
  moreover have "map rank five_aces_hand = [1, 1, 1, 1, 1]" by (simp add: sample_hands)
  moreover have "map rank five_sevens_hand = [7, 7, 7, 7, 7]" by (simp add: sample_hands)
  ultimately show ?thesis using wa ws by blast
qed

subsection \<open>C10\<close>

text \<open>
  Claim C10. For a hand of 5 cards, the error is the one of the first invalid field met
  when the cards are scanned in input order, the rank of a card before its suit: if every
  card before \<open>c\<close> is valid and \<open>c\<close> is not, the error is invalid-rank when the rank of
  \<open>c\<close> is invalid and invalid-suit otherwise, whatever the later cards are. In particular
  a first invalid card with both fields invalid gives the invalid-rank error.
\<close>

theorem C10_first_invalid_field:
  assumes "length h = 5" and "h = pre @ c # post"
    and "\<forall>d \<in> set pre. valid_rank d \<and> valid_suit d"
    and "\<not> (valid_rank c \<and> valid_suit c)"
  shows "evaluatePokerHand h = Inl (if \<not> valid_rank c then InvalidRank else InvalidSuit)
         \<and> (\<not> valid_rank c \<and> \<not> valid_suit c \<longrightarrow> evaluatePokerHand h = Inl InvalidRank)"
proof -
  have "validateHand h = validateCards (pre @ c # post)"
    using assms(1,2) by (simp only: validateHand_five)
  also have "\<dots> = Inl (if \<not> valid_rank c then InvalidRank else InvalidSuit)"
    using assms(3,4) by (rule validateCards_first_invalid)
  finally have "evaluatePokerHand h = Inl (if \<not> valid_rank c then InvalidRank else InvalidSuit)"
    by (simp only: evaluate_error)
  then show ?thesis by simp
qed

theorem C10_first_invalid_field_witness:
  "length rank_then_suit_hand = 5
   \<and> rank_then_suit_hand
       = [mk 2 ''heart''] @ mk 0 ''joker'' # [mk 9 ''club '', mk 14 ''club'', mk 13 ''heart'']
   \<and> \<not> valid_rank (mk 0 ''joker'') \<and> \<not> valid_suit (mk 0 ''joker'')
   \<and> evaluatePokerHand rank_then_suit_hand = Inl InvalidRank
   \<and> length suit_then_rank_hand = 5
   \<and> suit_then_rank_hand
       = [mk 2 ''heart''] @ mk 5 ''club '' # [mk 0 ''joker'', mk 14 ''club'', mk 13 ''heart'']
   \<and> valid_rank (mk 5 ''club '') \<and> \<not> valid_suit (mk 5 ''club '')
   \<and> evaluatePokerHand suit_then_rank_hand = Inl InvalidSuit"
proof -
  have l1: "length rank_then_suit_hand = 5" by (simp add: rank_then_suit_hand_def)
  have s1: "rank_then_suit_hand
      = [mk 2 ''heart''] @ mk 0 ''joker'' # [mk 9 ''club '', mk 14 ''club'', mk 13 ''heart'']"
    by (simp add: rank_then_suit_hand_def)
  have p: "\<forall>d \<in> set [mk 2 ''heart'']. valid_rank d \<and> valid_suit d"
    by (simp add: mk_def valid_rank_def valid_suit_def)
  have c1: "\<not> valid_rank (mk 0 ''joker'')" "\<not> valid_suit (mk 0 ''joker'')"
    by (simp_all add: mk_def valid_rank_def valid_suit_def)
  then have n1: "\<not> (valid_rank (mk 0 ''joker'') \<and> valid_suit (mk 0 ''joker''))" by simp
  have l2: "length suit_then_rank_hand = 5" by (simp add: suit_then_rank_hand_def)
  have s2: "suit_then_rank_hand
      = [mk 2 ''heart''] @ mk 5 ''club '' # [mk 0 ''joker'', mk 14 ''club'', mk 13 ''heart'']"
    by (simp add: suit_then_rank_hand_def)
  have c2: "valid_rank (mk 5 ''club '')" "\<not> valid_suit (mk 5 ''club '')"
    by (simp_all add: mk_def valid_rank_def valid_suit_def)
  then have n2: "\<not> (valid_rank (mk 5 ''club '') \<and> valid_suit (mk 5 ''club ''))" by simp
  from C10_first_invalid_field[OF l1 s1 p n1] c1
  have "evaluatePokerHand rank_then_suit_hand = Inl InvalidRank" by simp
  moreover from C10_first_invalid_field[OF l2 s2 p n2] c2
  have "evaluatePokerHand suit_then_rank_hand = Inl InvalidSuit" by simp
  ultimately show ?thesis using l1 s1 c1 l2 s2 c2 by blast
qed

end
